theory Spec2Isabelle
  imports Main "HOL-Library.AList"
begin

section \<open>The layered key-value store of database.py\<close>

text \<open>
  The program keeps a \<open>Context\<close> whose only attribute is \<open>frames\<close>, a Python list of
  \<open>Frame\<close> objects: index 0 is the base frame, the last element is the current frame.
  A context is modelled as that list. Variable names and values are the strings the
  command interpreter splits off an input line.
\<close>

subsection \<open>Frame\<close>

text \<open>
  \<open>Frame.__init__\<close> creates three containers:
  \<^item> \<open>data\<close>, a dict from variable name to value. \<open>Context.commit\<close> iterates over it, so
    it is an association list; \<open>AList.update\<close> is \<open>data[k] = v\<close> and \<open>AList.delete\<close> is
    \<open>del data[k]\<close>. The order of the list stands for the iteration order of the dict,
    which Python leaves open: the theorems below hold for every order.
  \<^item> \<open>numbers\<close>, a dict from value to a (possibly negative) integer, only ever looked up
    at a key: a map.
  \<^item> \<open>deleted\<close>, a set of variable names that \<open>Context.commit\<close> iterates over: a list,
    with \<open>List.insert\<close> for \<open>add\<close> and \<open>removeAll\<close> for \<open>discard\<close>.
  The fourth attribute, the reference \<open>self.context\<close>, is only used by \<open>decrease\<close> to call
  \<open>self.context.get\<close>; the methods that reach \<open>decrease\<close> take the context's current list
  of frames as their first argument instead.
\<close>

record frame =
  data :: "(string \<times> string) list"
  numbers :: "string \<rightharpoonup> int"
  deleted :: "string list"

definition new_frame :: frame where
  "new_frame = \<lparr>data = [], numbers = Map.empty, deleted = []\<rparr>"

definition frame_get :: "frame \<Rightarrow> string \<Rightarrow> string option" where
  "frame_get f var_name = map_of (data f) var_name"

definition is_unset :: "frame \<Rightarrow> string \<Rightarrow> bool" where
  "is_unset f var_name = (var_name \<in> set (deleted f))"

definition get_all_deleted :: "frame \<Rightarrow> string list" where
  "get_all_deleted f = deleted f"

definition frame_keys :: "frame \<Rightarrow> string list" where
  "frame_keys f = map fst (data f)"

definition frame_numequalto :: "frame \<Rightarrow> string \<Rightarrow> int" where
  "frame_numequalto f v = (case numbers f v of Some n \<Rightarrow> n | None \<Rightarrow> 0)"

text \<open>\<open>self.numbers[value] = self.numbers.get(value, 0) + 1\<close>\<close>

definition increase :: "frame \<Rightarrow> string \<Rightarrow> string \<Rightarrow> frame" where
  "increase f var_name v =
     f\<lparr>numbers := (numbers f)(v \<mapsto> (case numbers f v of Some n \<Rightarrow> n | None \<Rightarrow> 0) + 1)\<rparr>"

subsection \<open>Context.get\<close>

text \<open>
  The loop of \<open>Context.get\<close> over \<open>reversed(self.frames)\<close>, as a recursion over the
  reversed list. The returned \<open>value\<close> is \<open>None\<close> when the loop runs out, the string
  \<open>'NULL'\<close> when it breaks at a frame that has the name in \<open>deleted\<close>, the stored value
  when it breaks at a frame that has the name in \<open>data\<close>.
\<close>

fun get_scan :: "frame list \<Rightarrow> string \<Rightarrow> string option" where
  "get_scan [] var_name = None"
| "get_scan (f # rest) var_name =
     (if is_unset f var_name then Some ''NULL''
      else (case frame_get f var_name of
              Some v \<Rightarrow> Some v
            | None \<Rightarrow> get_scan rest var_name))"

definition context_get :: "frame list \<Rightarrow> string \<Rightarrow> string option" where
  "context_get frames var_name = get_scan (rev frames) var_name"

text \<open>What \<open>Context.get\<close> prints when \<open>do_print\<close> is true.\<close>

definition get_printed :: "frame list \<Rightarrow> string \<Rightarrow> string" where
  "get_printed frames var_name =
     (case context_get frames var_name of Some v \<Rightarrow> v | None \<Rightarrow> ''NULL'')"

subsection \<open>Frame.decrease, Frame.set, Frame.unset\<close>

text \<open>
  \<open>decrease\<close> first looks in the frame's own \<open>data\<close>; otherwise it asks
  \<open>self.context.get(var_name, False)\<close>, which scans the whole stack of the context from
  its top, and decrements the count of whatever that call returns unless it is \<open>None\<close>.
\<close>

definition decrease :: "frame list \<Rightarrow> frame \<Rightarrow> string \<Rightarrow> frame" where
  "decrease frames f var_name =
     (case map_of (data f) var_name of
        Some v \<Rightarrow>
          f\<lparr>numbers := (numbers f)(v \<mapsto> (case numbers f v of Some n \<Rightarrow> n | None \<Rightarrow> 0) - 1)\<rparr>
      | None \<Rightarrow>
          (case context_get frames var_name of
             Some v \<Rightarrow>
               f\<lparr>numbers := (numbers f)(v \<mapsto> (case numbers f v of Some n \<Rightarrow> n | None \<Rightarrow> 0) - 1)\<rparr>
           | None \<Rightarrow> f))"

definition frame_set :: "frame list \<Rightarrow> frame \<Rightarrow> string \<Rightarrow> string \<Rightarrow> frame" where
  "frame_set frames f var_name v =
     (let f1 = decrease frames f var_name;
          f2 = increase f1 var_name v;
          f3 = f2\<lparr>deleted := removeAll var_name (deleted f2)\<rparr>
      in f3\<lparr>data := AList.update var_name v (data f3)\<rparr>)"

definition frame_unset :: "frame list \<Rightarrow> frame \<Rightarrow> string \<Rightarrow> frame" where
  "frame_unset frames f var_name =
     (let f1 = decrease frames f var_name;
          f2 = f1\<lparr>deleted := List.insert var_name (deleted f1)\<rparr>
      in if var_name \<in> set (map fst (data f2))
         then f2\<lparr>data := AList.delete var_name (data f2)\<rparr>
         else f2)"

subsection \<open>Context\<close>

text \<open>
  \<open>self.frames[-1]\<close> and \<open>self.frames[0]\<close> raise \<open>IndexError\<close> on an empty list, and so
  does \<open>self.frames.pop()\<close>. \<open>Context.__init__\<close> starts with one frame and no operation
  empties the list (lemma \<open>run_init_total\<close> below), but the methods are modelled on every
  list.
\<close>

datatype error = IndexError

datatype printed = Line string | Count int

definition init_context :: "frame list" where
  "init_context = [new_frame]"

definition current_frame :: "frame list \<Rightarrow> error + frame" where
  "current_frame frames = (if frames = [] then Inl IndexError else Inr (last frames))"

text \<open>
  The frame methods update the frame object in place, and the context's list holds that
  object: the updated frame replaces the last element.
\<close>

definition context_set :: "frame list \<Rightarrow> string \<Rightarrow> string \<Rightarrow> error + frame list" where
  "context_set frames var_name v =
     (case current_frame frames of
        Inl e \<Rightarrow> Inl e
      | Inr f \<Rightarrow> Inr (butlast frames @ [frame_set frames f var_name v]))"

definition context_unset :: "frame list \<Rightarrow> string \<Rightarrow> error + frame list" where
  "context_unset frames var_name =
     (case current_frame frames of
        Inl e \<Rightarrow> Inl e
      | Inr f \<Rightarrow> Inr (butlast frames @ [frame_unset frames f var_name]))"

text \<open>\<open>count = 0; for frame in reversed(self.frames): count += frame.numequalto(value)\<close>\<close>

definition context_numequalto :: "frame list \<Rightarrow> string \<Rightarrow> int" where
  "context_numequalto frames v =
     fold (\<lambda>f count. count + frame_numequalto f v) (rev frames) 0"

definition context_begin :: "frame list \<Rightarrow> frame list" where
  "context_begin frames = frames @ [new_frame]"

definition context_rollback :: "frame list \<Rightarrow> error + (printed list \<times> frame list)" where
  "context_rollback frames =
     (if length frames = 1 then Inr ([Line ''INVALID ROLLBACK''], frames)
      else if frames = [] then Inl IndexError
      else Inr ([], butlast frames))"

text \<open>
  \<open>Context.commit\<close>. The local \<open>base_frame\<close> is the object at \<open>self.frames[0]\<close>; the loop
  state is that frame, the frames above it that are still on the stack (so the context's
  list is \<open>base_frame # uppers\<close> at every moment), and the set \<open>seen\<close>. The outer loop
  runs over \<open>reversed(self.frames[1:])\<close>, a copy taken before the first \<open>pop\<close>.

  The first inner loop runs over \<open>frame.get_all_deleted()\<close>.
\<close>

fun commit_deleted ::
  "string list \<Rightarrow> frame list \<Rightarrow> frame \<times> string set \<Rightarrow> frame \<times> string set" where
  "commit_deleted [] uppers (base_frame, seen) = (base_frame, seen)"
| "commit_deleted (d # ds) uppers (base_frame, seen) =
     (if d \<in> seen then commit_deleted ds uppers (base_frame, seen)
      else commit_deleted ds uppers
             (frame_unset (base_frame # uppers) base_frame d, insert d seen))"

text \<open>
  The second inner loop runs over \<open>frame.keys()\<close> and calls
  \<open>base_frame.set(key, frame.get(key))\<close>; \<open>frame.get(key)\<close> of a key of the frame's own dict
  is the value stored with it, so the recursion runs over the pairs of \<open>data\<close>.
\<close>

fun commit_keys ::
  "(string \<times> string) list \<Rightarrow> frame list \<Rightarrow> frame \<times> string set \<Rightarrow> frame \<times> string set" where
  "commit_keys [] uppers (base_frame, seen) = (base_frame, seen)"
| "commit_keys ((key, v) # kvs) uppers (base_frame, seen) =
     (if key \<in> seen then commit_keys kvs uppers (base_frame, seen)
      else commit_keys kvs uppers
             (frame_set (base_frame # uppers) base_frame key v, insert key seen))"

fun commit_loop ::
  "frame list \<Rightarrow> frame \<times> frame list \<times> string set \<Rightarrow> frame \<times> frame list \<times> string set" where
  "commit_loop [] (base_frame, uppers, seen) = (base_frame, uppers, seen)"
| "commit_loop (f # rest) (base_frame, uppers, seen) =
     (case commit_deleted (get_all_deleted f) uppers (base_frame, seen) of
        (base1, seen1) \<Rightarrow>
          (case commit_keys (data f) uppers (base1, seen1) of
             (base2, seen2) \<Rightarrow> commit_loop rest (base2, butlast uppers, seen2)))"

definition context_commit :: "frame list \<Rightarrow> error + (printed list \<times> frame list)" where
  "context_commit frames =
     (if length frames = 1
      then Inr ([Line ''INVALID COMMIT - NO TRANSACTION(S) IN PROGRESS''], frames)
      else (case frames of
              [] \<Rightarrow> Inl IndexError
            | base_frame # uppers \<Rightarrow>
                (case commit_loop (rev uppers) (base_frame, uppers, {}) of
                   (base', uppers', seen) \<Rightarrow> Inr ([], base' # uppers'))))"

subsection \<open>Commands\<close>

text \<open>
  The seven operations the interpreter dispatches to, with what each prints, and the
  execution of a list of them from a context. An \<open>IndexError\<close> ends the run.
\<close>

datatype command =
    SET string string
  | GET string
  | UNSET string
  | NUMEQUALTO string
  | BEGIN
  | ROLLBACK
  | COMMIT

fun exec :: "command \<Rightarrow> frame list \<Rightarrow> error + (printed list \<times> frame list)" where
  "exec (SET var_name v) frames =
     (case context_set frames var_name v of Inl e \<Rightarrow> Inl e | Inr frames' \<Rightarrow> Inr ([], frames'))"
| "exec (GET var_name) frames = Inr ([Line (get_printed frames var_name)], frames)"
| "exec (UNSET var_name) frames =
     (case context_unset frames var_name of Inl e \<Rightarrow> Inl e | Inr frames' \<Rightarrow> Inr ([], frames'))"
| "exec (NUMEQUALTO v) frames = Inr ([Count (context_numequalto frames v)], frames)"
| "exec BEGIN frames = Inr ([], context_begin frames)"
| "exec ROLLBACK frames = context_rollback frames"
| "exec COMMIT frames = context_commit frames"

fun run :: "command list \<Rightarrow> frame list \<Rightarrow> error + (printed list \<times> frame list)" where
  "run [] frames = Inr ([], frames)"
| "run (c # cs) frames =
     (case exec c frames of
        Inl e \<Rightarrow> Inl e
      | Inr (out, frames') \<Rightarrow>
          (case run cs frames' of
             Inl e \<Rightarrow> Inl e
           | Inr (outs, frames'') \<Rightarrow> Inr (out @ outs, frames'')))"

section \<open>Notions of the specification\<close>

text \<open>
  The specification speaks of the layer that decides a key: scanning from the topmost
  layer downward, the first layer that has the key in its deleted set or in its assigned
  map. A frame mentions a key when it has it in \<open>deleted\<close> or in \<open>data\<close>; its decision
  on a key it mentions is the deletion or the assignment (the deletion first, which is
  the order of the checks in \<open>Context.get\<close>); \<open>first_decision\<close> takes the frames top first.
\<close>

datatype decision = Deleted | Assigned string

definition mentions :: "frame \<Rightarrow> string \<Rightarrow> bool" where
  "mentions f k = (k \<in> set (deleted f) \<or> k \<in> set (frame_keys f))"

definition frame_decision :: "frame \<Rightarrow> string \<Rightarrow> decision option" where
  "frame_decision f k =
     (if k \<in> set (deleted f) then Some Deleted else map_option Assigned (map_of (data f) k))"

fun first_decision :: "frame list \<Rightarrow> string \<Rightarrow> decision option" where
  "first_decision [] k = None"
| "first_decision (f # rest) k =
     (case frame_decision f k of Some d \<Rightarrow> Some d | None \<Rightarrow> first_decision rest k)"

text \<open>
  The effective value of a key, in the words of the specification's data model: the
  assigned value when the deciding layer assigns the key, absent when that layer deletes
  it or when no layer mentions it. The brute-force count of a value scans every key that
  any layer assigns and counts those whose effective value is that value.
\<close>

definition effective_value :: "frame list \<Rightarrow> string \<Rightarrow> string option" where
  "effective_value frames k =
     (case first_decision (rev frames) k of
        Some (Assigned v) \<Rightarrow> Some v
      | Some Deleted \<Rightarrow> None
      | None \<Rightarrow> None)"

definition all_keys :: "frame list \<Rightarrow> string list" where
  "all_keys frames = remdups (concat (map frame_keys frames))"

definition brute_force_count :: "frame list \<Rightarrow> string \<Rightarrow> int" where
  "brute_force_count frames v =
     int (length (filter (\<lambda>k. effective_value frames k = Some v) (all_keys frames)))"

text \<open>No key is both assigned and deleted in the frame.\<close>

definition frame_disjoint :: "frame \<Rightarrow> bool" where
  "frame_disjoint f = (set (frame_keys f) \<inter> set (deleted f) = {})"

text \<open>The commands that neither open nor close a transaction.\<close>

fun plain_command :: "command \<Rightarrow> bool" where
  "plain_command (SET var_name v) = True"
| "plain_command (GET var_name) = True"
| "plain_command (UNSET var_name) = True"
| "plain_command (NUMEQUALTO v) = True"
| "plain_command BEGIN = False"
| "plain_command ROLLBACK = False"
| "plain_command COMMIT = False"

text \<open>
  The commands that write, and the number of pairs of an association list that hold a
  value.
\<close>

fun write_command :: "command \<Rightarrow> bool" where
  "write_command (SET var_name v) = True"
| "write_command (UNSET var_name) = True"
| "write_command c = False"

definition holders :: "(string \<times> string) list \<Rightarrow> string \<Rightarrow> int" where
  "holders al v = int (length (filter (\<lambda>p. snd p = v) al))"

section \<open>Resolution of a key\<close>

lemma mentions_iff:
  "mentions f k \<longleftrightarrow> k \<in> set (deleted f) \<or> map_of (data f) k \<noteq> None"
  by (simp add: mentions_def frame_keys_def map_of_eq_None_iff)

lemma mentions_decision: "mentions f k \<longleftrightarrow> frame_decision f k \<noteq> None"
  by (simp add: mentions_iff frame_decision_def)

lemma first_decision_append:
  "first_decision (xs @ ys) k =
     (case first_decision xs k of Some d \<Rightarrow> Some d | None \<Rightarrow> first_decision ys k)"
  by (induction xs) (auto split: option.splits)

lemma first_decision_None:
  "first_decision fs k = None \<longleftrightarrow> list_all (\<lambda>g. \<not> mentions g k) fs"
  by (induction fs) (auto simp: mentions_decision split: option.splits)

lemma get_scan_decision:
  "get_scan fs k =
     (case first_decision fs k of
        Some Deleted \<Rightarrow> Some ''NULL''
      | Some (Assigned v) \<Rightarrow> Some v
      | None \<Rightarrow> None)"
  by (induction fs)
     (auto simp: is_unset_def frame_get_def frame_decision_def
           split: option.splits decision.splits)

lemma get_scan_skip:
  "list_all (\<lambda>g. \<not> mentions g k) tops \<Longrightarrow> get_scan (tops @ rest) k = get_scan rest k"
  by (induction tops) (auto simp: mentions_iff is_unset_def frame_get_def split: option.splits)

text \<open>
  C7. \<open>Context.get\<close> scans the frames from the topmost to the bottom. With the stack split
  as \<open>lower @ f # upper\<close>, where no frame of \<open>upper\<close> mentions the key: if \<open>f\<close> has the key
  in \<open>deleted\<close>, the call returns the string NULL and prints NULL; if \<open>f\<close> has it in \<open>data\<close>
  (and not in \<open>deleted\<close>), the call returns and prints that frame's value. If no frame of
  the stack mentions the key, the call returns \<open>None\<close> and prints NULL.
\<close>

theorem get_resolves_top_down:
  "(frames = lower @ f # upper \<and> list_all (\<lambda>g. \<not> mentions g k) upper \<and> k \<in> set (deleted f)
      \<longrightarrow> context_get frames k = Some ''NULL'' \<and>
          exec (GET k) frames = Inr ([Line ''NULL''], frames)) \<and>
   (frames = lower @ f # upper \<and> list_all (\<lambda>g. \<not> mentions g k) upper \<and> k \<notin> set (deleted f)
      \<and> map_of (data f) k = Some v
      \<longrightarrow> context_get frames k = Some v \<and> exec (GET k) frames = Inr ([Line v], frames)) \<and>
   (list_all (\<lambda>g. \<not> mentions g k) frames
      \<longrightarrow> context_get frames k = None \<and> exec (GET k) frames = Inr ([Line ''NULL''], frames))"
proof (intro conjI impI)
  assume a: "frames = lower @ f # upper \<and> list_all (\<lambda>g. \<not> mentions g k) upper
    \<and> k \<in> set (deleted f)"
  then have "list_all (\<lambda>g. \<not> mentions g k) (rev upper)" by simp
  from get_scan_skip[OF this, of "f # rev lower"] a
  show "context_get frames k = Some ''NULL''"
    by (simp add: context_get_def is_unset_def)
  then show "exec (GET k) frames = Inr ([Line ''NULL''], frames)"
    by (simp add: get_printed_def)
next
  assume a: "frames = lower @ f # upper \<and> list_all (\<lambda>g. \<not> mentions g k) upper
    \<and> k \<notin> set (deleted f) \<and> map_of (data f) k = Some v"
  then have "list_all (\<lambda>g. \<not> mentions g k) (rev upper)" by simp
  from get_scan_skip[OF this, of "f # rev lower"] a
  show "context_get frames k = Some v"
    by (simp add: context_get_def is_unset_def frame_get_def)
  then show "exec (GET k) frames = Inr ([Line v], frames)"
    by (simp add: get_printed_def)
next
  assume "list_all (\<lambda>g. \<not> mentions g k) frames"
  then have "list_all (\<lambda>g. \<not> mentions g k) (rev frames)" by simp
  from get_scan_skip[OF this, of "[]"]
  show "context_get frames k = None"
    by (simp add: context_get_def)
  then show "exec (GET k) frames = Inr ([Line ''NULL''], frames)"
    by (simp add: get_printed_def)
qed

text \<open>
  The three cases at a stack of three frames: the base assigns \<open>a\<close> and \<open>b\<close>, the middle
  frame deletes \<open>a\<close>, the top frame is empty.
\<close>

theorem get_resolves_top_down_witness:
  "exec (GET ''a'')
     [\<lparr>data = [(''a'', ''1''), (''b'', ''2'')], numbers = Map.empty, deleted = []\<rparr>,
      \<lparr>data = [], numbers = Map.empty, deleted = [''a'']\<rparr>,
      \<lparr>data = [], numbers = Map.empty, deleted = []\<rparr>]
   = Inr ([Line ''NULL''],
     [\<lparr>data = [(''a'', ''1''), (''b'', ''2'')], numbers = Map.empty, deleted = []\<rparr>,
      \<lparr>data = [], numbers = Map.empty, deleted = [''a'']\<rparr>,
      \<lparr>data = [], numbers = Map.empty, deleted = []\<rparr>]) \<and>
   exec (GET ''b'')
     [\<lparr>data = [(''a'', ''1''), (''b'', ''2'')], numbers = Map.empty, deleted = []\<rparr>,
      \<lparr>data = [], numbers = Map.empty, deleted = [''a'']\<rparr>,
      \<lparr>data = [], numbers = Map.empty, deleted = []\<rparr>]
   = Inr ([Line ''2''],
     [\<lparr>data = [(''a'', ''1''), (''b'', ''2'')], numbers = Map.empty, deleted = []\<rparr>,
      \<lparr>data = [], numbers = Map.empty, deleted = [''a'']\<rparr>,
      \<lparr>data = [], numbers = Map.empty, deleted = []\<rparr>]) \<and>
   exec (GET ''c'')
     [\<lparr>data = [(''a'', ''1''), (''b'', ''2'')], numbers = Map.empty, deleted = []\<rparr>,
      \<lparr>data = [], numbers = Map.empty, deleted = [''a'']\<rparr>,
      \<lparr>data = [], numbers = Map.empty, deleted = []\<rparr>]
   = Inr ([Line ''NULL''],
     [\<lparr>data = [(''a'', ''1''), (''b'', ''2'')], numbers = Map.empty, deleted = []\<rparr>,
      \<lparr>data = [], numbers = Map.empty, deleted = [''a'']\<rparr>,
      \<lparr>data = [], numbers = Map.empty, deleted = []\<rparr>])"
proof -
  let ?b = "\<lparr>data = [(''a'', ''1''), (''b'', ''2'')], numbers = Map.empty, deleted = []\<rparr>"
  let ?m = "\<lparr>data = [], numbers = Map.empty, deleted = [''a'']\<rparr>"
  let ?t = "\<lparr>data = [], numbers = Map.empty, deleted = []\<rparr>"
  have 1: "exec (GET ''a'') [?b, ?m, ?t] = Inr ([Line ''NULL''], [?b, ?m, ?t])"
    using get_resolves_top_down[of "[?b, ?m, ?t]" "[?b]" ?m "[?t]" "''a''"]
    by (simp add: mentions_def frame_keys_def)
  have 2: "exec (GET ''b'') [?b, ?m, ?t] = Inr ([Line ''2''], [?b, ?m, ?t])"
    using get_resolves_top_down[of "[?b, ?m, ?t]" "[]" ?b "[?m, ?t]" "''b''" "''2''"]
    by (simp add: mentions_def frame_keys_def)
  have 3: "exec (GET ''c'') [?b, ?m, ?t] = Inr ([Line ''NULL''], [?b, ?m, ?t])"
    using get_resolves_top_down[of "[?b, ?m, ?t]" _ _ _ "''c''"]
    by (simp add: mentions_def frame_keys_def)
  from 1 2 3 show ?thesis by simp
qed

section \<open>What the frame methods do to \<open>data\<close> and \<open>deleted\<close>\<close>

lemma decrease_data [simp]: "data (decrease fs f k) = data f"
  by (simp add: decrease_def split: option.splits)

lemma decrease_deleted [simp]: "deleted (decrease fs f k) = deleted f"
  by (simp add: decrease_def split: option.splits)

lemma frame_set_data [simp]: "data (frame_set fs f k v) = AList.update k v (data f)"
  by (simp add: frame_set_def increase_def Let_def)

lemma frame_set_deleted [simp]: "deleted (frame_set fs f k v) = removeAll k (deleted f)"
  by (simp add: frame_set_def increase_def Let_def)

lemma frame_unset_data [simp]: "data (frame_unset fs f k) = AList.delete k (data f)"
  by (simp add: frame_unset_def Let_def)

lemma frame_unset_deleted [simp]: "deleted (frame_unset fs f k) = List.insert k (deleted f)"
  by (simp add: frame_unset_def Let_def)

section \<open>Rollback and commit without a transaction\<close>

text \<open>
  C8. With only the base frame on the stack, \<open>rollback\<close> prints INVALID ROLLBACK and
  \<open>commit\<close> prints its INVALID COMMIT line; neither raises, and the list of frames is the
  one before the call, so whatever commands follow print exactly what they would have
  printed without the invalid call.
\<close>

theorem invalid_rollback_commit_leave_state:
  "exec ROLLBACK [base_frame] = Inr ([Line ''INVALID ROLLBACK''], [base_frame]) \<and>
   exec COMMIT [base_frame] =
     Inr ([Line ''INVALID COMMIT - NO TRANSACTION(S) IN PROGRESS''], [base_frame]) \<and>
   run (ROLLBACK # cmds) [base_frame] =
     (case run cmds [base_frame] of
        Inl e \<Rightarrow> Inl e
      | Inr (outs, frames) \<Rightarrow> Inr (Line ''INVALID ROLLBACK'' # outs, frames)) \<and>
   run (COMMIT # cmds) [base_frame] =
     (case run cmds [base_frame] of
        Inl e \<Rightarrow> Inl e
      | Inr (outs, frames) \<Rightarrow>
          Inr (Line ''INVALID COMMIT - NO TRANSACTION(S) IN PROGRESS'' # outs, frames))"
  by (simp add: context_rollback_def context_commit_def split: sum.splits)

section \<open>A deleted key and the string NULL\<close>

text \<open>
  C10. When the first frame from the top that mentions \<open>k\<close> deletes it and the first
  frame that mentions \<open>j\<close> assigns it the string NULL, \<open>Context.get\<close> returns and prints
  the same for both. The lookup inside \<open>decrease\<close> sees a deleted key the same way: for a
  key that the frame does not assign itself and whose first decision is a deletion,
  \<open>decrease\<close> decrements the frame's count of the string NULL, exactly as it does for a
  key bound to that string below.
\<close>

theorem deleted_key_reads_as_NULL_string:
  "(first_decision (rev frames) k = Some Deleted \<and>
    first_decision (rev frames) j = Some (Assigned ''NULL'')
      \<longrightarrow> context_get frames k = context_get frames j \<and>
          exec (GET k) frames = exec (GET j) frames) \<and>
   (first_decision (rev frames) k = Some Deleted \<and> map_of (data f) k = None
      \<longrightarrow> decrease frames f k =
            f\<lparr>numbers := (numbers f)(''NULL'' \<mapsto> frame_numequalto f ''NULL'' - 1)\<rparr>) \<and>
   (first_decision (rev frames) k = Some Deleted \<and> map_of (data f) k = None \<and>
    first_decision (rev frames) j = Some (Assigned ''NULL'') \<and> map_of (data f) j = None
      \<longrightarrow> decrease frames f k = decrease frames f j)"
  by (simp add: context_get_def get_scan_decision get_printed_def decrease_def frame_numequalto_def)

text \<open>
  A base frame that assigns \<open>j\<close> the string NULL and deletes \<open>k\<close>, under an empty frame.
\<close>

theorem deleted_key_reads_as_NULL_string_witness:
  "context_get
     [\<lparr>data = [(''j'', ''NULL'')], numbers = [''NULL'' \<mapsto> 1], deleted = [''k'']\<rparr>,
      \<lparr>data = [], numbers = Map.empty, deleted = []\<rparr>] ''k'' = Some ''NULL'' \<and>
   context_get
     [\<lparr>data = [(''j'', ''NULL'')], numbers = [''NULL'' \<mapsto> 1], deleted = [''k'']\<rparr>,
      \<lparr>data = [], numbers = Map.empty, deleted = []\<rparr>] ''j'' = Some ''NULL'' \<and>
   decrease
     [\<lparr>data = [(''j'', ''NULL'')], numbers = [''NULL'' \<mapsto> 1], deleted = [''k'']\<rparr>,
      \<lparr>data = [], numbers = Map.empty, deleted = []\<rparr>]
     \<lparr>data = [], numbers = Map.empty, deleted = []\<rparr> ''k''
   = \<lparr>data = [], numbers = [''NULL'' \<mapsto> - 1], deleted = []\<rparr> \<and>
   decrease
     [\<lparr>data = [(''j'', ''NULL'')], numbers = [''NULL'' \<mapsto> 1], deleted = [''k'']\<rparr>,
      \<lparr>data = [], numbers = Map.empty, deleted = []\<rparr>]
     \<lparr>data = [], numbers = Map.empty, deleted = []\<rparr> ''j''
   = \<lparr>data = [], numbers = [''NULL'' \<mapsto> - 1], deleted = []\<rparr>"
  using deleted_key_reads_as_NULL_string
    [of "[\<lparr>data = [(''j'', ''NULL'')], numbers = [''NULL'' \<mapsto> 1], deleted = [''k'']\<rparr>,
          \<lparr>data = [], numbers = Map.empty, deleted = []\<rparr>]"
        "''k''" "''j''" "\<lparr>data = [], numbers = Map.empty, deleted = []\<rparr>"]
  by (simp add: frame_decision_def frame_numequalto_def context_get_def is_unset_def
        frame_get_def decrease_def)

section \<open>A transaction that is rolled back\<close>

lemma exec_plain:
  "plain_command c \<Longrightarrow> frames \<noteq> [] \<Longrightarrow> \<exists>out f'. exec c frames = Inr (out, butlast frames @ [f'])"
  by (cases c)
     (auto simp: context_set_def context_unset_def current_frame_def
           intro: exI[of _ "last frames"])

lemma run_plain:
  "list_all plain_command cs \<Longrightarrow> frames \<noteq> [] \<Longrightarrow>
     \<exists>out f'. run cs frames = Inr (out, butlast frames @ [f'])"
proof (induction cs arbitrary: frames)
  case Nil
  then show ?case by (auto intro: exI[of _ "last frames"])
next
  case (Cons c cs)
  from Cons.prems obtain out f' where e: "exec c frames = Inr (out, butlast frames @ [f'])"
    using exec_plain[of c frames] by auto
  from Cons.prems have "list_all plain_command cs" by simp
  from Cons.IH[OF this, of "butlast frames @ [f']"]
  obtain outs f'' where "run cs (butlast frames @ [f']) = Inr (outs, butlast frames @ [f''])"
    by auto
  with e show ?case by simp
qed

lemma run_append:
  "run (cs @ ds) frames =
     (case run cs frames of
        Inl e \<Rightarrow> Inl e
      | Inr (out, frames') \<Rightarrow>
          (case run ds frames' of
             Inl e \<Rightarrow> Inl e
           | Inr (outs, frames'') \<Rightarrow> Inr (out @ outs, frames'')))"
  by (induction cs arbitrary: frames) (auto split: sum.splits)

text \<open>
  C6. From any stack with at least the base frame, \<open>begin\<close>, then any commands among
  set, unset, get and numequalto, then \<open>rollback\<close>, runs without error and ends in the
  very list of frames it started from; so every \<open>get\<close> and every \<open>numequalto\<close> prints
  afterwards what it printed before the \<open>begin\<close>.
\<close>

theorem begin_plain_rollback_restores:
  assumes "frames \<noteq> []" and "list_all plain_command ops"
  shows "\<exists>out frames'. run (BEGIN # ops @ [ROLLBACK]) frames = Inr (out, frames') \<and>
           frames' = frames \<and>
           (\<forall>k. exec (GET k) frames' = exec (GET k) frames) \<and>
           (\<forall>v. exec (NUMEQUALTO v) frames' = exec (NUMEQUALTO v) frames)"
proof -
  from run_plain[OF assms(2), of "frames @ [new_frame]"]
  obtain out f' where r: "run ops (frames @ [new_frame]) = Inr (out, frames @ [f'])"
    by auto
  from assms(1) have "exec ROLLBACK (frames @ [f']) = Inr ([], frames)"
    by (simp add: context_rollback_def)
  with r have "run (BEGIN # ops @ [ROLLBACK]) frames = Inr (out, frames)"
    by (simp add: run_append context_begin_def)
  then show ?thesis by simp
qed

text \<open>
  The example of the specification: with \<open>a\<close> and \<open>b\<close> both 10 in the base frame, a
  transaction sets \<open>a\<close> to 20, deletes \<open>b\<close> and queries, and is rolled back.
\<close>

theorem begin_plain_rollback_restores_witness:
  "[\<lparr>data = [(''a'', ''10''), (''b'', ''10'')], numbers = [''10'' \<mapsto> 2], deleted = []\<rparr>] \<noteq> [] \<and>
   list_all plain_command [SET ''a'' ''20'', NUMEQUALTO ''10'', UNSET ''b'', GET ''b''] \<and>
   (\<exists>out. run [BEGIN, SET ''a'' ''20'', NUMEQUALTO ''10'', UNSET ''b'', GET ''b'', ROLLBACK]
            [\<lparr>data = [(''a'', ''10''), (''b'', ''10'')], numbers = [''10'' \<mapsto> 2],
              deleted = []\<rparr>]
      = Inr (out, [\<lparr>data = [(''a'', ''10''), (''b'', ''10'')], numbers = [''10'' \<mapsto> 2],
                    deleted = []\<rparr>]))"
  using begin_plain_rollback_restores
    [of "[\<lparr>data = [(''a'', ''10''), (''b'', ''10'')], numbers = [''10'' \<mapsto> 2], deleted = []\<rparr>]"
        "[SET ''a'' ''20'', NUMEQUALTO ''10'', UNSET ''b'', GET ''b'']"]
  by simp

section \<open>Assigned and deleted keys of a frame\<close>

lemma frame_set_disjoint: "frame_disjoint f \<Longrightarrow> frame_disjoint (frame_set fs f k v)"
  by (auto simp: frame_disjoint_def frame_keys_def dom_update)

lemma frame_unset_disjoint: "frame_disjoint f \<Longrightarrow> frame_disjoint (frame_unset fs f k)"
  by (auto simp: frame_disjoint_def frame_keys_def delete_keys)

lemma commit_deleted_disjoint:
  "frame_disjoint b \<Longrightarrow> frame_disjoint (fst (commit_deleted ds us (b, seen)))"
  by (induction ds arbitrary: b seen) (auto simp: frame_unset_disjoint)

lemma commit_keys_disjoint:
  "frame_disjoint b \<Longrightarrow> frame_disjoint (fst (commit_keys kvs us (b, seen)))"
  by (induction kvs arbitrary: b seen) (auto simp: frame_set_disjoint)

lemma list_all_butlast: "list_all P xs \<Longrightarrow> list_all P (butlast xs)"
  by (induction xs) auto

lemma list_all_last: "list_all P xs \<Longrightarrow> xs \<noteq> [] \<Longrightarrow> P (last xs)"
  by (induction xs) auto

lemma commit_loop_disjoint:
  "frame_disjoint b \<Longrightarrow> list_all frame_disjoint us \<Longrightarrow>
   commit_loop fr (b, us, seen) = (b', us', seen') \<Longrightarrow>
   frame_disjoint b' \<and> list_all frame_disjoint us'"
proof (induction fr arbitrary: b us seen)
  case Nil
  then show ?case by simp
next
  case (Cons f fr)
  obtain b1 seen1 where d: "commit_deleted (get_all_deleted f) us (b, seen) = (b1, seen1)"
    by (cases "commit_deleted (get_all_deleted f) us (b, seen)")
  obtain b2 seen2 where k: "commit_keys (data f) us (b1, seen1) = (b2, seen2)"
    by (cases "commit_keys (data f) us (b1, seen1)")
  from d Cons.prems(1) have "frame_disjoint b1"
    using commit_deleted_disjoint[of b "get_all_deleted f" us seen] by simp
  with k have "frame_disjoint b2"
    using commit_keys_disjoint[of b1 "data f" us seen1] by simp
  moreover from Cons.prems(2) have "list_all frame_disjoint (butlast us)"
    by (rule list_all_butlast)
  moreover from Cons.prems(3) d k have "commit_loop fr (b2, butlast us, seen2) = (b', us', seen')"
    by simp
  ultimately show ?case by (rule Cons.IH)
qed

lemma exec_disjoint:
  assumes "list_all frame_disjoint frames" and "exec c frames = Inr (out, frames')"
  shows "list_all frame_disjoint frames'"
proof (cases c)
  case (SET k v)
  with assms show ?thesis
    by (auto simp: context_set_def current_frame_def list_all_butlast list_all_last
          frame_set_disjoint split: if_splits)
next
  case (UNSET k)
  with assms show ?thesis
    by (auto simp: context_unset_def current_frame_def list_all_butlast list_all_last
          frame_unset_disjoint split: if_splits)
next
  case BEGIN
  with assms show ?thesis
    by (auto simp: context_begin_def new_frame_def frame_disjoint_def frame_keys_def)
next
  case ROLLBACK
  with assms show ?thesis
    by (auto simp: context_rollback_def list_all_butlast split: if_splits)
next
  case COMMIT
  show ?thesis
  proof (cases frames)
    case Nil
    with assms COMMIT show ?thesis by (simp add: context_commit_def)
  next
    case (Cons b us)
    show ?thesis
    proof (cases "us = []")
      case True
      with assms COMMIT Cons show ?thesis by (auto simp: context_commit_def)
    next
      case False
      obtain b' us' seen' where l: "commit_loop (rev us) (b, us, {}) = (b', us', seen')"
        by (cases "commit_loop (rev us) (b, us, {})")
      from assms(1) Cons have "frame_disjoint b" "list_all frame_disjoint us" by simp_all
      from commit_loop_disjoint[OF this l] assms(2) COMMIT Cons False l
      show ?thesis by (auto simp: context_commit_def)
    qed
  qed
qed (use assms in auto)

lemma run_disjoint:
  "list_all frame_disjoint frames \<Longrightarrow> run cs frames = Inr (out, frames') \<Longrightarrow>
   list_all frame_disjoint frames'"
proof (induction cs arbitrary: frames out)
  case Nil
  then show ?case by simp
next
  case (Cons c cs)
  from Cons.prems(2) obtain o1 fs1 o2 where e: "exec c frames = Inr (o1, fs1)"
    and r: "run cs fs1 = Inr (o2, frames')"
    by (auto split: sum.splits)
  from exec_disjoint[OF Cons.prems(1) e] have "list_all frame_disjoint fs1" .
  from Cons.IH[OF this r] show ?case .
qed

text \<open>
  C9. In every state that a list of commands reaches from the initial context, no frame
  has a key both in \<open>data\<close> and in \<open>deleted\<close>. Every command keeps that property of a
  stack, the fold of \<open>commit\<close> into the base frame included. \<open>Frame.set\<close> leaves the key
  assigned and not deleted; \<open>Frame.unset\<close> leaves it deleted and not assigned.
\<close>

theorem assigned_and_deleted_stay_disjoint:
  "(run cmds init_context = Inr (out, frames) \<longrightarrow> list_all frame_disjoint frames) \<and>
   (list_all frame_disjoint frames0 \<and> exec c frames0 = Inr (out0, frames1)
      \<longrightarrow> list_all frame_disjoint frames1) \<and>
   k \<notin> set (deleted (frame_set fs f k v)) \<and>
   map_of (data (frame_set fs f k v)) k = Some v \<and>
   k \<in> set (deleted (frame_unset fs f k)) \<and>
   map_of (data (frame_unset fs f k)) k = None"
proof -
  have "list_all frame_disjoint init_context"
    by (simp add: init_context_def new_frame_def frame_disjoint_def frame_keys_def)
  then have "run cmds init_context = Inr (out, frames) \<longrightarrow> list_all frame_disjoint frames"
    using run_disjoint by blast
  moreover have "list_all frame_disjoint frames0 \<and> exec c frames0 = Inr (out0, frames1)
      \<longrightarrow> list_all frame_disjoint frames1"
    using exec_disjoint by blast
  ultimately show ?thesis
    by (simp add: update_conv' delete_conv')
qed

theorem assigned_and_deleted_stay_disjoint_witness:
  "run [SET ''a'' ''1'', BEGIN, UNSET ''a'', SET ''b'' ''2'', COMMIT] init_context
     = Inr ([], [\<lparr>data = [(''b'', ''2'')], numbers = [''1'' \<mapsto> 0, ''2'' \<mapsto> 0],
                  deleted = [''a'']\<rparr>]) \<and>
   list_all frame_disjoint
     [\<lparr>data = [(''b'', ''2'')], numbers = [''1'' \<mapsto> 0, ''2'' \<mapsto> 0], deleted = [''a'']\<rparr>] \<and>
   list_all frame_disjoint [\<lparr>data = [(''a'', ''1'')], numbers = Map.empty, deleted = []\<rparr>] \<and>
   exec (UNSET ''a'') [\<lparr>data = [(''a'', ''1'')], numbers = Map.empty, deleted = []\<rparr>]
     = Inr ([], [\<lparr>data = [], numbers = [''1'' \<mapsto> - 1], deleted = [''a'']\<rparr>]) \<and>
   list_all frame_disjoint [\<lparr>data = [], numbers = [''1'' \<mapsto> - 1], deleted = [''a'']\<rparr>]"
proof -
  have r: "run [SET ''a'' ''1'', BEGIN, UNSET ''a'', SET ''b'' ''2'', COMMIT] init_context
     = Inr ([], [\<lparr>data = [(''b'', ''2'')], numbers = [''1'' \<mapsto> 0, ''2'' \<mapsto> 0],
                  deleted = [''a'']\<rparr>])"
    by (simp add: new_frame_def frame_get_def is_unset_def get_all_deleted_def
          frame_numequalto_def increase_def context_get_def decrease_def frame_set_def
          frame_unset_def init_context_def current_frame_def context_set_def
          context_unset_def context_begin_def context_commit_def)
  have e: "exec (UNSET ''a'') [\<lparr>data = [(''a'', ''1'')], numbers = Map.empty, deleted = []\<rparr>]
     = Inr ([], [\<lparr>data = [], numbers = [''1'' \<mapsto> - 1], deleted = [''a'']\<rparr>])"
    by (simp add: decrease_def frame_unset_def current_frame_def context_unset_def)
  have d: "list_all frame_disjoint
     [\<lparr>data = [(''a'', ''1'')], numbers = Map.empty, deleted = []\<rparr>]"
    by (simp add: frame_disjoint_def frame_keys_def)
  from r e d
    assigned_and_deleted_stay_disjoint
      [of "[SET ''a'' ''1'', BEGIN, UNSET ''a'', SET ''b'' ''2'', COMMIT]" "[]"
          "[\<lparr>data = [(''b'', ''2'')], numbers = [''1'' \<mapsto> 0, ''2'' \<mapsto> 0], deleted = [''a'']\<rparr>]"
          "[\<lparr>data = [(''a'', ''1'')], numbers = Map.empty, deleted = []\<rparr>]"
          "UNSET ''a''" "[]"
          "[\<lparr>data = [], numbers = [''1'' \<mapsto> - 1], deleted = [''a'']\<rparr>]"]
  show ?thesis by simp
qed

section \<open>Commit\<close>

text \<open>
  What the two inner loops of \<open>Context.commit\<close> do to the \<open>data\<close> and \<open>deleted\<close> of the
  base frame and to \<open>seen\<close>.
\<close>

lemma commit_deleted_seen: "snd (commit_deleted ds us (b, seen)) = seen \<union> set ds"
  by (induction ds arbitrary: b seen) auto

lemma commit_deleted_deleted:
  "set (deleted (fst (commit_deleted ds us (b, seen)))) = set (deleted b) \<union> (set ds - seen)"
  by (induction ds arbitrary: b seen) auto

lemma commit_deleted_data:
  "map_of (data (fst (commit_deleted ds us (b, seen)))) k =
     (if k \<in> set ds \<and> k \<notin> seen then None else map_of (data b) k)"
  by (induction ds arbitrary: b seen) (auto simp: delete_conv')

lemma key_of_pair: "(a, b) \<in> set kvs \<Longrightarrow> a \<in> fst ` set kvs"
  by force

lemma commit_keys_seen: "snd (commit_keys kvs us (b, seen)) = seen \<union> fst ` set kvs"
  by (induction kvs arbitrary: b seen) (auto split: if_splits dest: key_of_pair)

lemma commit_keys_deleted:
  "set (deleted (fst (commit_keys kvs us (b, seen)))) = set (deleted b) - (fst ` set kvs - seen)"
  by (induction kvs arbitrary: b seen) (auto split: if_splits dest: key_of_pair)

lemma commit_keys_data:
  "map_of (data (fst (commit_keys kvs us (b, seen)))) k =
     (if k \<in> fst ` set kvs \<and> k \<notin> seen then map_of kvs k else map_of (data b) k)"
  by (induction kvs arbitrary: b seen) (auto simp: update_conv' split: if_splits dest: key_of_pair)

lemma commit_frame_effect:
  assumes "commit_deleted (get_all_deleted f) us (b, seen) = (b1, seen1)"
    and "commit_keys (data f) us (b1, seen1) = (b2, seen2)"
  shows "seen2 = seen \<union> {k. mentions f k}"
    and "k \<in> set (deleted b2) \<longleftrightarrow>
          (if k \<in> seen then k \<in> set (deleted b)
           else case frame_decision f k of
                  Some Deleted \<Rightarrow> True
                | Some (Assigned v) \<Rightarrow> False
                | None \<Rightarrow> k \<in> set (deleted b))"
    and "map_of (data b2) k =
          (if k \<in> seen then map_of (data b) k
           else case frame_decision f k of
                  Some Deleted \<Rightarrow> None
                | Some (Assigned v) \<Rightarrow> Some v
                | None \<Rightarrow> map_of (data b) k)"
proof -
  have s1: "seen1 = seen \<union> set (deleted f)"
    using commit_deleted_seen[of "get_all_deleted f" us b seen] assms(1)
    by (simp add: get_all_deleted_def)
  have d1: "set (deleted b1) = set (deleted b) \<union> (set (deleted f) - seen)"
    using commit_deleted_deleted[of "get_all_deleted f" us b seen] assms(1)
    by (simp add: get_all_deleted_def)
  have m1: "map_of (data b1) k =
      (if k \<in> set (deleted f) \<and> k \<notin> seen then None else map_of (data b) k)"
    using commit_deleted_data[of "get_all_deleted f" us b seen k] assms(1)
    by (simp add: get_all_deleted_def)
  define K where "K = fst ` set (data f)"
  have s2: "seen2 = seen1 \<union> K"
    using commit_keys_seen[of "data f" us b1 seen1] assms(2) by (simp add: K_def)
  have d2: "set (deleted b2) = set (deleted b1) - (K - seen1)"
    using commit_keys_deleted[of "data f" us b1 seen1] assms(2) by (simp add: K_def)
  have m2: "map_of (data b2) k =
      (if k \<in> K \<and> k \<notin> seen1 then map_of (data f) k else map_of (data b1) k)"
    using commit_keys_data[of "data f" us b1 seen1 k] assms(2) by (simp add: K_def)
  have dom: "\<And>x. x \<in> K \<longleftrightarrow> map_of (data f) x \<noteq> None"
    by (simp add: K_def map_of_eq_None_iff)
  have men: "\<And>x. mentions f x \<longleftrightarrow> x \<in> set (deleted f) \<or> x \<in> K"
    by (simp add: mentions_def frame_keys_def K_def)
  show "seen2 = seen \<union> {k. mentions f k}"
    using s1 s2 men by auto
  show "k \<in> set (deleted b2) \<longleftrightarrow>
          (if k \<in> seen then k \<in> set (deleted b)
           else case frame_decision f k of
                  Some Deleted \<Rightarrow> True
                | Some (Assigned v) \<Rightarrow> False
                | None \<Rightarrow> k \<in> set (deleted b))"
    using dom[of k] by (auto simp: d2 d1 s1 frame_decision_def split: option.splits)
  show "map_of (data b2) k =
          (if k \<in> seen then map_of (data b) k
           else case frame_decision f k of
                  Some Deleted \<Rightarrow> None
                | Some (Assigned v) \<Rightarrow> Some v
                | None \<Rightarrow> map_of (data b) k)"
    using dom[of k] by (auto simp: m2 m1 s1 frame_decision_def split: option.splits)
qed

lemma commit_loop_effect:
  "commit_loop fr (b, us, seen) = (b', us', seen') \<Longrightarrow>
   (k \<in> set (deleted b') \<longleftrightarrow>
      (if k \<in> seen then k \<in> set (deleted b)
       else case first_decision fr k of
              Some Deleted \<Rightarrow> True
            | Some (Assigned v) \<Rightarrow> False
            | None \<Rightarrow> k \<in> set (deleted b))) \<and>
   map_of (data b') k =
      (if k \<in> seen then map_of (data b) k
       else case first_decision fr k of
              Some Deleted \<Rightarrow> None
            | Some (Assigned v) \<Rightarrow> Some v
            | None \<Rightarrow> map_of (data b) k) \<and>
   us' = take (length us - length fr) us"
proof (induction fr arbitrary: b us seen)
  case Nil
  then show ?case by simp
next
  case (Cons f fr)
  obtain b1 seen1 where d: "commit_deleted (get_all_deleted f) us (b, seen) = (b1, seen1)"
    by (cases "commit_deleted (get_all_deleted f) us (b, seen)")
  obtain b2 seen2 where ks: "commit_keys (data f) us (b1, seen1) = (b2, seen2)"
    by (cases "commit_keys (data f) us (b1, seen1)")
  note fe = commit_frame_effect(1)[OF d ks] commit_frame_effect(2)[OF d ks, of k]
    commit_frame_effect(3)[OF d ks, of k]
  from Cons.prems d ks have "commit_loop fr (b2, butlast us, seen2) = (b', us', seen')"
    by simp
  note ih = Cons.IH[OF this]
  have t: "take (length (butlast us) - length fr) (butlast us) = take (length us - length (f # fr)) us"
    by (simp add: butlast_conv_take)
  show ?case
  proof (cases "k \<in> seen")
    case True
    with fe ih t show ?thesis by simp
  next
    case False
    show ?thesis
    proof (cases "frame_decision f k")
      case None
      then have "\<not> mentions f k" by (simp add: mentions_decision)
      with False fe(1) have "k \<notin> seen2" by simp
      with False None fe ih t show ?thesis by (simp split: option.splits decision.splits)
    next
      case (Some dd)
      then have "mentions f k" by (simp add: mentions_decision)
      with fe(1) have "k \<in> seen2" by simp
      with False Some fe ih t show ?thesis by simp
    qed
  qed
qed

text \<open>
  C5. On a stack with at least one frame above the base, \<open>commit\<close> runs without error and
  leaves the base frame alone on the stack. For every key, the base frame then carries
  the decision of the topmost frame above the base that mentions the key: deleted and
  not assigned when that frame deletes it, assigned that frame's value and not deleted
  when it assigns it. Decisions of older frames on the key have no effect on the result,
  and with no decision above the base the base frame's entry for the key is as it was.
  So \<open>get\<close> returns and prints after the commit what it did before.
\<close>

theorem commit_folds_latest_decision:
  assumes "uppers \<noteq> []"
  shows "\<exists>base'. context_commit (base_frame # uppers) = Inr ([], [base']) \<and>
           (\<forall>k. (case first_decision (rev uppers) k of
                    Some Deleted \<Rightarrow> k \<in> set (deleted base') \<and> map_of (data base') k = None
                  | Some (Assigned v) \<Rightarrow>
                      k \<notin> set (deleted base') \<and> map_of (data base') k = Some v
                  | None \<Rightarrow>
                      (k \<in> set (deleted base') \<longleftrightarrow> k \<in> set (deleted base_frame)) \<and>
                      map_of (data base') k = map_of (data base_frame) k) \<and>
                 context_get [base'] k = context_get (base_frame # uppers) k \<and>
                 exec (GET k) [base'] = Inr ([Line (get_printed (base_frame # uppers) k)], [base']))"
proof -
  obtain b' us' seen' where l: "commit_loop (rev uppers) (base_frame, uppers, {}) = (b', us', seen')"
    by (cases "commit_loop (rev uppers) (base_frame, uppers, {})")
  note eff = commit_loop_effect[OF l]
  from eff have us': "us' = []" by simp
  with l assms have c: "context_commit (base_frame # uppers) = Inr ([], [b'])"
    by (simp add: context_commit_def)
  have "(case first_decision (rev uppers) k of
           Some Deleted \<Rightarrow> k \<in> set (deleted b') \<and> map_of (data b') k = None
         | Some (Assigned v) \<Rightarrow> k \<notin> set (deleted b') \<and> map_of (data b') k = Some v
         | None \<Rightarrow>
             (k \<in> set (deleted b') \<longleftrightarrow> k \<in> set (deleted base_frame)) \<and>
             map_of (data b') k = map_of (data base_frame) k) \<and>
        context_get [b'] k = context_get (base_frame # uppers) k \<and>
        exec (GET k) [b'] = Inr ([Line (get_printed (base_frame # uppers) k)], [b'])" for k
  proof -
    have 1: "(case first_decision (rev uppers) k of
           Some Deleted \<Rightarrow> k \<in> set (deleted b') \<and> map_of (data b') k = None
         | Some (Assigned v) \<Rightarrow> k \<notin> set (deleted b') \<and> map_of (data b') k = Some v
         | None \<Rightarrow>
             (k \<in> set (deleted b') \<longleftrightarrow> k \<in> set (deleted base_frame)) \<and>
             map_of (data b') k = map_of (data base_frame) k)"
      using eff[of k] by (simp split: option.splits decision.splits)
    have 2: "context_get [b'] k = context_get (base_frame # uppers) k"
      using 1
      by (simp add: context_get_def get_scan_decision first_decision_append frame_decision_def
            split: option.splits decision.splits)
    from 1 2 show ?thesis by (simp add: get_printed_def)
  qed
  with c show ?thesis by blast
qed

text \<open>
  The example of the specification: \<open>a\<close> is 1 in the base frame, 2 in the first
  transaction and 3 in the second; the commit leaves 3 and discards 2.
\<close>

theorem commit_folds_latest_decision_witness:
  "[\<lparr>data = [(''a'', ''2'')], numbers = [''1'' \<mapsto> - 1, ''2'' \<mapsto> 1], deleted = []\<rparr>,
    \<lparr>data = [(''a'', ''3'')], numbers = [''2'' \<mapsto> - 1, ''3'' \<mapsto> 1], deleted = []\<rparr>] \<noteq> [] \<and>
   (\<exists>base'.
      context_commit
        [\<lparr>data = [(''a'', ''1'')], numbers = [''1'' \<mapsto> 1], deleted = []\<rparr>,
         \<lparr>data = [(''a'', ''2'')], numbers = [''1'' \<mapsto> - 1, ''2'' \<mapsto> 1], deleted = []\<rparr>,
         \<lparr>data = [(''a'', ''3'')], numbers = [''2'' \<mapsto> - 1, ''3'' \<mapsto> 1], deleted = []\<rparr>]
        = Inr ([], [base']) \<and>
      ''a'' \<notin> set (deleted base') \<and> map_of (data base') ''a'' = Some ''3'' \<and>
      context_get [base'] ''a'' = Some ''3'')"
proof -
  let ?b = "\<lparr>data = [(''a'', ''1'')], numbers = [''1'' \<mapsto> 1], deleted = []\<rparr>"
  let ?u = "[\<lparr>data = [(''a'', ''2'')], numbers = [''1'' \<mapsto> - 1, ''2'' \<mapsto> 1], deleted = []\<rparr>,
    \<lparr>data = [(''a'', ''3'')], numbers = [''2'' \<mapsto> - 1, ''3'' \<mapsto> 1], deleted = []\<rparr>]"
  have ne: "?u \<noteq> []" by simp
  from commit_folds_latest_decision[OF ne, of ?b]
  obtain base' where c: "context_commit (?b # ?u) = Inr ([], [base'])"
    and a: "\<And>k. (case first_decision (rev ?u) k of
                    Some Deleted \<Rightarrow> k \<in> set (deleted base') \<and> map_of (data base') k = None
                  | Some (Assigned v) \<Rightarrow>
                      k \<notin> set (deleted base') \<and> map_of (data base') k = Some v
                  | None \<Rightarrow>
                      (k \<in> set (deleted base') \<longleftrightarrow> k \<in> set (deleted ?b)) \<and>
                      map_of (data base') k = map_of (data ?b) k) \<and>
                 context_get [base'] k = context_get (?b # ?u) k"
    by blast
  have g: "context_get (?b # ?u) ''a'' = Some ''3''"
    by (simp add: context_get_def is_unset_def frame_get_def)
  from a[of "''a''"] g
  have "''a'' \<notin> set (deleted base') \<and> map_of (data base') ''a'' = Some ''3'' \<and>
      context_get [base'] ''a'' = Some ''3''"
    by (simp add: frame_decision_def)
  with c show ?thesis by auto
qed

section \<open>The decrement rule\<close>

text \<open>
  The count a frame holds for a value \<open>x\<close> after \<open>decrease\<close>, \<open>unset\<close> and \<open>set\<close>, in terms
  of the count before: \<open>decrease\<close> takes one off the value it finds, in the frame's own
  \<open>data\<close> first and through \<open>Context.get\<close> otherwise.
\<close>

lemma numequalto_decrease:
  "frame_numequalto (decrease fs f k) x =
     frame_numequalto f x -
       (case (case map_of (data f) k of Some old \<Rightarrow> Some old | None \<Rightarrow> context_get fs k) of
          Some old \<Rightarrow> if x = old then 1 else 0
        | None \<Rightarrow> 0)"
  by (simp add: decrease_def frame_numequalto_def split: option.splits)

lemma numequalto_frame_unset:
  "frame_numequalto (frame_unset fs f k) x = frame_numequalto (decrease fs f k) x"
  by (simp add: frame_unset_def frame_numequalto_def Let_def)

lemma numequalto_frame_set:
  "frame_numequalto (frame_set fs f k v) x =
     frame_numequalto (decrease fs f k) x + (if x = v then 1 else 0)"
  by (simp add: frame_set_def increase_def frame_numequalto_def Let_def split: option.splits)

text \<open>
  Where the rule works. \<open>set\<close> and \<open>unset\<close> of the context run on the last frame. If
  that frame assigns the key, its count of the old value goes down by one. If the frame
  does not mention the key and the first frame beneath it that mentions the key assigns
  it \<open>w\<close>, the count of \<open>w\<close> goes down by one. If no frame of the stack mentions the key,
  no count goes down. In each of these cases no other count changes, except that \<open>set\<close>
  adds one to the count of the new value.
\<close>

lemma decrement_rule_of_top_frame:
  assumes "frames \<noteq> []"
  shows "context_set frames k v = Inr (butlast frames @ [frame_set frames (last frames) k v]) \<and>
     context_unset frames k = Inr (butlast frames @ [frame_unset frames (last frames) k]) \<and>
     (map_of (data (last frames)) k = Some old \<longrightarrow>
        (\<forall>x. frame_numequalto (frame_unset frames (last frames) k) x =
               frame_numequalto (last frames) x - (if x = old then 1 else 0)) \<and>
        (\<forall>x. frame_numequalto (frame_set frames (last frames) k v) x =
               frame_numequalto (last frames) x - (if x = old then 1 else 0)
                 + (if x = v then 1 else 0))) \<and>
     (\<not> mentions (last frames) k \<and>
      first_decision (rev (butlast frames)) k = Some (Assigned w) \<longrightarrow>
        (\<forall>x. frame_numequalto (frame_unset frames (last frames) k) x =
               frame_numequalto (last frames) x - (if x = w then 1 else 0)) \<and>
        (\<forall>x. frame_numequalto (frame_set frames (last frames) k v) x =
               frame_numequalto (last frames) x - (if x = w then 1 else 0)
                 + (if x = v then 1 else 0))) \<and>
     (list_all (\<lambda>g. \<not> mentions g k) frames \<longrightarrow>
        (\<forall>x. frame_numequalto (frame_unset frames (last frames) k) x =
               frame_numequalto (last frames) x) \<and>
        (\<forall>x. frame_numequalto (frame_set frames (last frames) k v) x =
               frame_numequalto (last frames) x + (if x = v then 1 else 0)))"
proof -
  let ?f = "last frames"
  from assms have split: "frames = butlast frames @ [?f]" by simp
  have scan: "context_get frames k =
      (case first_decision (?f # rev (butlast frames)) k of
         Some Deleted \<Rightarrow> Some ''NULL''
       | Some (Assigned u) \<Rightarrow> Some u
       | None \<Rightarrow> None)"
  proof -
    have "rev frames = ?f # rev (butlast frames)"
      using arg_cong[OF split, of rev] by simp
    then show ?thesis by (simp only: context_get_def get_scan_decision)
  qed
  have own: "map_of (data ?f) k = Some old \<longrightarrow>
        (\<forall>x. frame_numequalto (frame_unset frames ?f k) x =
               frame_numequalto ?f x - (if x = old then 1 else 0)) \<and>
        (\<forall>x. frame_numequalto (frame_set frames ?f k v) x =
               frame_numequalto ?f x - (if x = old then 1 else 0) + (if x = v then 1 else 0))"
    by (simp add: numequalto_frame_unset numequalto_frame_set numequalto_decrease)
  have below: "\<not> mentions ?f k \<and> first_decision (rev (butlast frames)) k = Some (Assigned w) \<longrightarrow>
        (\<forall>x. frame_numequalto (frame_unset frames ?f k) x =
               frame_numequalto ?f x - (if x = w then 1 else 0)) \<and>
        (\<forall>x. frame_numequalto (frame_set frames ?f k v) x =
               frame_numequalto ?f x - (if x = w then 1 else 0) + (if x = v then 1 else 0))"
  proof
    assume a: "\<not> mentions ?f k \<and> first_decision (rev (butlast frames)) k = Some (Assigned w)"
    then have nm: "\<not> mentions ?f k" by simp
    from nm have n: "map_of (data ?f) k = None" by (simp add: mentions_iff)
    from nm have fd: "frame_decision ?f k = None" by (simp add: mentions_decision)
    from a fd have "context_get frames k = Some w" by (simp add: scan)
    with n show "(\<forall>x. frame_numequalto (frame_unset frames ?f k) x =
               frame_numequalto ?f x - (if x = w then 1 else 0)) \<and>
        (\<forall>x. frame_numequalto (frame_set frames ?f k v) x =
               frame_numequalto ?f x - (if x = w then 1 else 0) + (if x = v then 1 else 0))"
      by (simp add: numequalto_frame_unset numequalto_frame_set numequalto_decrease)
  qed
  have nowhere: "list_all (\<lambda>g. \<not> mentions g k) frames \<longrightarrow>
        (\<forall>x. frame_numequalto (frame_unset frames ?f k) x = frame_numequalto ?f x) \<and>
        (\<forall>x. frame_numequalto (frame_set frames ?f k v) x =
               frame_numequalto ?f x + (if x = v then 1 else 0))"
  proof
    assume a: "list_all (\<lambda>g. \<not> mentions g k) frames"
    then have "list_all (\<lambda>g. \<not> mentions g k) (rev frames)" by simp
    then have g: "context_get frames k = None"
      by (simp add: context_get_def get_scan_decision first_decision_None[symmetric])
    from a assms have "\<not> mentions ?f k"
      using list_all_last[of "\<lambda>g. \<not> mentions g k" frames] by simp
    then have "map_of (data ?f) k = None" by (simp add: mentions_iff)
    with g show "(\<forall>x. frame_numequalto (frame_unset frames ?f k) x = frame_numequalto ?f x) \<and>
        (\<forall>x. frame_numequalto (frame_set frames ?f k v) x =
               frame_numequalto ?f x + (if x = v then 1 else 0))"
      by (simp add: numequalto_frame_unset numequalto_frame_set numequalto_decrease)
  qed
  from assms have "context_set frames k v = Inr (butlast frames @ [frame_set frames ?f k v])"
    and "context_unset frames k = Inr (butlast frames @ [frame_unset frames ?f k])"
    by (simp_all add: context_set_def context_unset_def current_frame_def)
  with own below nowhere show ?thesis by blast
qed

text \<open>
  The rule at three stacks: a frame that assigns \<open>a\<close> itself; an empty frame over a base
  that assigns \<open>a\<close>; a single empty frame.
\<close>

lemma decrement_rule_of_top_frame_examples:
  "frame_numequalto
     (frame_set [\<lparr>data = [(''a'', ''1'')], numbers = [''1'' \<mapsto> 1], deleted = []\<rparr>]
        \<lparr>data = [(''a'', ''1'')], numbers = [''1'' \<mapsto> 1], deleted = []\<rparr> ''a'' ''2'') ''1'' = 0 \<and>
   frame_numequalto
     (frame_set [\<lparr>data = [(''a'', ''1'')], numbers = [''1'' \<mapsto> 1], deleted = []\<rparr>]
        \<lparr>data = [(''a'', ''1'')], numbers = [''1'' \<mapsto> 1], deleted = []\<rparr> ''a'' ''2'') ''2'' = 1 \<and>
   frame_numequalto
     (frame_unset [\<lparr>data = [(''a'', ''1'')], numbers = [''1'' \<mapsto> 1], deleted = []\<rparr>,
                   \<lparr>data = [], numbers = Map.empty, deleted = []\<rparr>]
        \<lparr>data = [], numbers = Map.empty, deleted = []\<rparr> ''a'') ''1'' = - 1 \<and>
   frame_numequalto
     (frame_set [\<lparr>data = [], numbers = Map.empty, deleted = []\<rparr>]
        \<lparr>data = [], numbers = Map.empty, deleted = []\<rparr> ''a'' ''2'') ''2'' = 1 \<and>
   frame_numequalto
     (frame_unset [\<lparr>data = [], numbers = Map.empty, deleted = []\<rparr>]
        \<lparr>data = [], numbers = Map.empty, deleted = []\<rparr> ''a'') ''2'' = 0"
proof -
  let ?b = "\<lparr>data = [(''a'', ''1'')], numbers = [''1'' \<mapsto> 1], deleted = []\<rparr>"
  let ?n = "\<lparr>data = [], numbers = Map.empty, deleted = []\<rparr>"
  have 1: "frame_numequalto (frame_set [?b] ?b ''a'' ''2'') ''1'' = 0 \<and>
      frame_numequalto (frame_set [?b] ?b ''a'' ''2'') ''2'' = 1"
    using decrement_rule_of_top_frame
      [where frames = "[?b]" and k = "''a''" and v = "''2''" and old = "''1''"]
    by (simp add: frame_numequalto_def)
  have 2: "frame_numequalto (frame_unset [?b, ?n] ?n ''a'') ''1'' = - 1"
    using decrement_rule_of_top_frame
      [where frames = "[?b, ?n]" and k = "''a''" and w = "''1''"]
    by (simp add: frame_numequalto_def mentions_def frame_keys_def frame_decision_def)
  have 3: "frame_numequalto (frame_set [?n] ?n ''a'' ''2'') ''2'' = 1 \<and>
      frame_numequalto (frame_unset [?n] ?n ''a'') ''2'' = 0"
    using decrement_rule_of_top_frame
      [where frames = "[?n]" and k = "''a''" and v = "''2''"]
    by (simp add: frame_numequalto_def mentions_def frame_keys_def)
  from 1 2 3 show ?thesis by simp
qed

text \<open>
  C4 says that \<open>set\<close> and \<open>unset\<close> on the top layer decrement the count of the old value
  when the layer assigns the key, else the count of the key's effective value when it
  has one, and otherwise (key absent, or only deleted) decrement no count. The code
  breaks the last case. After \<open>unset a; begin\<close> the key \<open>a\<close> is only deleted below and
  has no effective value, yet \<open>unset a\<close> takes the top frame's count of the string NULL
  from 0 to -1. After \<open>set a 1; begin; unset a\<close> the top frame has deleted \<open>a\<close>, which so
  has no effective value, yet \<open>set a 2\<close> takes one off the top frame's count of the
  string NULL as well. In both, \<open>Context.get\<close> returns the string NULL for the deleted
  key and \<open>decrease\<close> decrements the count of that string.
\<close>

theorem decrement_rule_decrements_NULL:
  "run [UNSET ''a'', BEGIN] init_context
     = Inr ([], [\<lparr>data = [], numbers = Map.empty, deleted = [''a'']\<rparr>,
                 \<lparr>data = [], numbers = Map.empty, deleted = []\<rparr>]) \<and>
   map_of (data \<lparr>data = [], numbers = Map.empty, deleted = []\<rparr>) ''a'' = None \<and>
   effective_value
     [\<lparr>data = [], numbers = Map.empty, deleted = [''a'']\<rparr>,
      \<lparr>data = [], numbers = Map.empty, deleted = []\<rparr>] ''a'' = None \<and>
   frame_numequalto \<lparr>data = [], numbers = Map.empty, deleted = []\<rparr> ''NULL'' = 0 \<and>
   exec (UNSET ''a'')
     [\<lparr>data = [], numbers = Map.empty, deleted = [''a'']\<rparr>,
      \<lparr>data = [], numbers = Map.empty, deleted = []\<rparr>]
     = Inr ([], [\<lparr>data = [], numbers = Map.empty, deleted = [''a'']\<rparr>,
                 \<lparr>data = [], numbers = [''NULL'' \<mapsto> - 1], deleted = [''a'']\<rparr>]) \<and>
   frame_numequalto \<lparr>data = [], numbers = [''NULL'' \<mapsto> - 1], deleted = [''a'']\<rparr> ''NULL''
     = - 1 \<and>
   run [SET ''a'' ''1'', BEGIN, UNSET ''a''] init_context
     = Inr ([], [\<lparr>data = [(''a'', ''1'')], numbers = [''1'' \<mapsto> 1], deleted = []\<rparr>,
                 \<lparr>data = [], numbers = [''1'' \<mapsto> - 1], deleted = [''a'']\<rparr>]) \<and>
   map_of (data \<lparr>data = [], numbers = [''1'' \<mapsto> - 1], deleted = [''a'']\<rparr>) ''a'' = None \<and>
   effective_value
     [\<lparr>data = [(''a'', ''1'')], numbers = [''1'' \<mapsto> 1], deleted = []\<rparr>,
      \<lparr>data = [], numbers = [''1'' \<mapsto> - 1], deleted = [''a'']\<rparr>] ''a'' = None \<and>
   frame_numequalto \<lparr>data = [], numbers = [''1'' \<mapsto> - 1], deleted = [''a'']\<rparr> ''NULL'' = 0 \<and>
   exec (SET ''a'' ''2'')
     [\<lparr>data = [(''a'', ''1'')], numbers = [''1'' \<mapsto> 1], deleted = []\<rparr>,
      \<lparr>data = [], numbers = [''1'' \<mapsto> - 1], deleted = [''a'']\<rparr>]
     = Inr ([], [\<lparr>data = [(''a'', ''1'')], numbers = [''1'' \<mapsto> 1], deleted = []\<rparr>,
                 \<lparr>data = [(''a'', ''2'')],
                   numbers = [''1'' \<mapsto> - 1, ''NULL'' \<mapsto> - 1, ''2'' \<mapsto> 1],
                   deleted = []\<rparr>]) \<and>
   frame_numequalto
     \<lparr>data = [(''a'', ''2'')], numbers = [''1'' \<mapsto> - 1, ''NULL'' \<mapsto> - 1, ''2'' \<mapsto> 1],
      deleted = []\<rparr> ''NULL'' = - 1"
  by (simp add: new_frame_def frame_get_def is_unset_def frame_numequalto_def increase_def
        context_get_def decrease_def frame_set_def frame_unset_def init_context_def
        current_frame_def context_set_def context_unset_def context_begin_def
        effective_value_def frame_decision_def)

section \<open>Counts that disagree with the keys\<close>

text \<open>
  C1 says that in every reachable state the counts of a value, summed over the frames,
  equal the number of keys whose effective value it is. After \<open>begin; set a 5; commit\<close>
  the key \<open>a\<close> has the effective value 5, the brute-force count of 5 is 1, and
  \<open>numequalto 5\<close> prints 0: the \<open>set\<close> that \<open>commit\<close> runs on the base frame looks \<open>a\<close> up
  through the whole stack, finds the 5 of the frame being folded and takes it off the
  base frame's count before adding it.
\<close>

theorem count_lost_by_commit:
  "run [BEGIN, SET ''a'' ''5'', COMMIT] init_context
     = Inr ([], [\<lparr>data = [(''a'', ''5'')], numbers = [''5'' \<mapsto> 0], deleted = []\<rparr>]) \<and>
   exec (NUMEQUALTO ''5'')
     [\<lparr>data = [(''a'', ''5'')], numbers = [''5'' \<mapsto> 0], deleted = []\<rparr>]
     = Inr ([Count 0], [\<lparr>data = [(''a'', ''5'')], numbers = [''5'' \<mapsto> 0], deleted = []\<rparr>]) \<and>
   effective_value [\<lparr>data = [(''a'', ''5'')], numbers = [''5'' \<mapsto> 0], deleted = []\<rparr>] ''a''
     = Some ''5'' \<and>
   brute_force_count [\<lparr>data = [(''a'', ''5'')], numbers = [''5'' \<mapsto> 0], deleted = []\<rparr>] ''5''
     = 1"
  by (simp add: new_frame_def frame_get_def is_unset_def get_all_deleted_def
        frame_numequalto_def increase_def context_get_def decrease_def frame_set_def
        init_context_def current_frame_def context_set_def context_numequalto_def
        context_begin_def context_commit_def effective_value_def frame_decision_def
        brute_force_count_def all_keys_def frame_keys_def)

text \<open>
  C2 says that \<open>get\<close> and \<open>numequalto\<close> print the same before and after a commit. In
  the state after \<open>begin; set a 5\<close>, \<open>numequalto 5\<close> prints 1; after \<open>commit\<close> it prints 0.
\<close>

theorem commit_changes_numequalto:
  "run [BEGIN, SET ''a'' ''5''] init_context
     = Inr ([], [\<lparr>data = [], numbers = Map.empty, deleted = []\<rparr>,
                 \<lparr>data = [(''a'', ''5'')], numbers = [''5'' \<mapsto> 1], deleted = []\<rparr>]) \<and>
   exec (NUMEQUALTO ''5'')
     [\<lparr>data = [], numbers = Map.empty, deleted = []\<rparr>,
      \<lparr>data = [(''a'', ''5'')], numbers = [''5'' \<mapsto> 1], deleted = []\<rparr>]
     = Inr ([Count 1],
         [\<lparr>data = [], numbers = Map.empty, deleted = []\<rparr>,
          \<lparr>data = [(''a'', ''5'')], numbers = [''5'' \<mapsto> 1], deleted = []\<rparr>]) \<and>
   run [COMMIT, NUMEQUALTO ''5'']
     [\<lparr>data = [], numbers = Map.empty, deleted = []\<rparr>,
      \<lparr>data = [(''a'', ''5'')], numbers = [''5'' \<mapsto> 1], deleted = []\<rparr>]
     = Inr ([Count 0],
         [\<lparr>data = [(''a'', ''5'')], numbers = [''5'' \<mapsto> 0], deleted = []\<rparr>])"
  by (simp add: new_frame_def frame_get_def is_unset_def get_all_deleted_def
        frame_numequalto_def increase_def context_get_def decrease_def frame_set_def
        init_context_def current_frame_def context_set_def context_numequalto_def
        context_begin_def context_commit_def)

text \<open>
  C3 says that with no transaction open \<open>numequalto\<close> of a value is the number of keys
  holding it. After \<open>unset a; unset a\<close> on the initial context no key holds any value,
  and \<open>numequalto NULL\<close> prints -1: the second \<open>unset\<close> finds \<open>a\<close> deleted, \<open>Context.get\<close>
  returns the string NULL for it, and \<open>decrease\<close> takes one off the count of that string.
\<close>

theorem single_frame_count_of_NULL_negative:
  "run [UNSET ''a'', UNSET ''a'', NUMEQUALTO ''NULL'', GET ''a''] init_context
     = Inr ([Count (- 1), Line ''NULL''],
         [\<lparr>data = [], numbers = [''NULL'' \<mapsto> - 1], deleted = [''a'']\<rparr>]) \<and>
   brute_force_count [\<lparr>data = [], numbers = [''NULL'' \<mapsto> - 1], deleted = [''a'']\<rparr>] ''NULL''
     = 0"
  by (simp add: new_frame_def frame_get_def is_unset_def frame_numequalto_def
        context_get_def get_printed_def decrease_def frame_unset_def init_context_def
        current_frame_def context_unset_def context_numequalto_def
        brute_force_count_def all_keys_def frame_keys_def)

section \<open>The stack is never empty\<close>

text \<open>
  From a stack with at least one frame no command raises, and at least one frame stays.
\<close>

lemma exec_nonempty:
  "frames \<noteq> [] \<Longrightarrow> \<exists>out frames'. exec c frames = Inr (out, frames') \<and> frames' \<noteq> []"
proof (cases c)
  case COMMIT
  assume "frames \<noteq> []"
  then obtain b us where f: "frames = b # us" by (cases frames) auto
  obtain b' us' seen' where "commit_loop (rev us) (b, us, {}) = (b', us', seen')"
    by (cases "commit_loop (rev us) (b, us, {})")
  with f COMMIT show ?thesis by (simp add: context_commit_def)
next
  case ROLLBACK
  assume "frames \<noteq> []"
  then obtain b us where f: "frames = b # us" by (cases frames) auto
  with ROLLBACK show ?thesis by (cases us) (simp_all add: context_rollback_def)
qed (simp_all add: context_set_def context_unset_def current_frame_def context_begin_def)

lemma run_nonempty:
  "frames \<noteq> [] \<Longrightarrow> \<exists>out frames'. run cs frames = Inr (out, frames') \<and> frames' \<noteq> []"
proof (induction cs arbitrary: frames)
  case Nil
  then show ?case by simp
next
  case (Cons c cs)
  from exec_nonempty[OF Cons.prems, of c]
  obtain o1 fs1 where e: "exec c frames = Inr (o1, fs1)" and n: "fs1 \<noteq> []" by blast
  from Cons.IH[OF n] obtain o2 fs2 where "run cs fs1 = Inr (o2, fs2)" and "fs2 \<noteq> []" by blast
  with e show ?case by simp
qed

lemma run_init_total: "\<exists>out frames. run cs init_context = Inr (out, frames) \<and> frames \<noteq> []"
  by (rule run_nonempty) (simp add: init_context_def)

section \<open>A single frame\<close>

text \<open>
  With no transaction open the defect of the string NULL is the only one. From the
  initial context, any list of \<open>set\<close> and \<open>unset\<close> commands runs without error and leaves
  one frame in which the count of every value other than the string NULL is the
  brute-force count; and \<open>get\<close> of the key just written prints the value set, or NULL
  after an \<open>unset\<close>, while every other key prints what it printed before.
\<close>

lemma holders_Nil [simp]: "holders [] x = 0"
  by (simp add: holders_def)

lemma holders_Cons [simp]: "holders (p # al) x = (if snd p = x then 1 else 0) + holders al x"
  by (simp add: holders_def)

lemma holders_update:
  "distinct (map fst al) \<Longrightarrow>
   holders (AList.update k v al) x =
     holders al x - (if map_of al k = Some x then 1 else 0) + (if x = v then 1 else 0)"
proof (induction al)
  case Nil
  then show ?case by simp
next
  case (Cons p al)
  obtain a b where p: "p = (a, b)" by (cases p)
  from Cons.prems p have na: "a \<notin> fst ` set al" and d: "distinct (map fst al)" by auto
  show ?case
  proof (cases "a = k")
    case True
    with na have "map_of al k = None" by (simp add: map_of_eq_None_iff)
    with True p show ?thesis by simp
  next
    case False
    with p Cons.IH[OF d] show ?thesis by simp
  qed
qed

lemma holders_delete:
  "distinct (map fst al) \<Longrightarrow>
   holders (AList.delete k al) x = holders al x - (if map_of al k = Some x then 1 else 0)"
proof (induction al)
  case Nil
  then show ?case by simp
next
  case (Cons p al)
  obtain a b where p: "p = (a, b)" by (cases p)
  from Cons.prems p have na: "a \<notin> fst ` set al" and d: "distinct (map fst al)" by auto
  show ?case
  proof (cases "a = k")
    case True
    with na have "map_of al k = None" by (simp add: map_of_eq_None_iff)
    moreover from True na have "AList.delete k al = al" by simp
    ultimately show ?thesis using True p by simp
  next
    case False
    with p Cons.IH[OF d] show ?thesis by simp
  qed
qed

lemma holders_brute_force:
  assumes "distinct (map fst (data f))" and "frame_disjoint f"
  shows "brute_force_count [f] v = holders (data f) v"
proof -
  have eff: "k \<in> fst ` set (data f) \<Longrightarrow> effective_value [f] k = map_of (data f) k" for k
    using assms(2)
    by (auto simp: effective_value_def frame_decision_def frame_disjoint_def frame_keys_def
          map_of_eq_None_iff split: option.splits)
  have "distinct (map fst al) \<Longrightarrow>
        length (filter (\<lambda>k. map_of al k = Some v) (map fst al)) =
        length (filter (\<lambda>p. snd p = v) al)" for al :: "(string \<times> string) list"
  proof (induction al)
    case Nil
    then show ?case by simp
  next
    case (Cons p al)
    obtain a b where p: "p = (a, b)" by (cases p)
    from Cons.prems p have na: "a \<notin> fst ` set al" and d: "distinct (map fst al)" by auto
    have "filter (\<lambda>k. map_of (p # al) k = Some v) (map fst al) =
          filter (\<lambda>k. map_of al k = Some v) (map fst al)"
      using na p by (intro filter_cong) auto
    with Cons.IH[OF d] p show ?case by simp
  qed
  from this[OF assms(1)]
  have C: "length (filter (\<lambda>k. map_of (data f) k = Some v) (map fst (data f))) =
        length (filter (\<lambda>p. snd p = v) (data f))" .
  have B: "filter (\<lambda>k. effective_value [f] k = Some v) (map fst (data f)) =
                 filter (\<lambda>k. map_of (data f) k = Some v) (map fst (data f))"
    by (intro filter_cong) (auto simp: eff)
  have A: "all_keys [f] = map fst (data f)"
    using assms(1) by (simp add: all_keys_def frame_keys_def)
  show ?thesis
    by (simp only: brute_force_count_def holders_def A B C)
qed

lemma single_frame_get: "context_get [f] k =
    (if k \<in> set (deleted f) then Some ''NULL'' else map_of (data f) k)"
  by (simp add: context_get_def is_unset_def frame_get_def split: option.splits)

lemma single_frame_step:
  assumes "write_command c" and "distinct (map fst (data f))" and "frame_disjoint f"
    and "\<forall>x. x \<noteq> ''NULL'' \<longrightarrow> frame_numequalto f x = holders (data f) x"
  shows "\<exists>f'. exec c [f] = Inr ([], [f']) \<and> distinct (map fst (data f')) \<and> frame_disjoint f' \<and>
           (\<forall>x. x \<noteq> ''NULL'' \<longrightarrow> frame_numequalto f' x = holders (data f') x)"
proof (cases c)
  case (SET k v)
  let ?f' = "frame_set [f] f k v"
  have "exec c [f] = Inr ([], [?f'])"
    using SET by (simp add: context_set_def current_frame_def)
  moreover have "distinct (map fst (data ?f'))" using assms(2) by (simp add: distinct_update)
  moreover have "frame_disjoint ?f'" using assms(3) by (rule frame_set_disjoint)
  moreover have "frame_numequalto ?f' x = holders (data ?f') x" if "x \<noteq> ''NULL''" for x
    using that assms(2,4)
    by (auto simp: numequalto_frame_set numequalto_decrease holders_update single_frame_get
          split: option.splits)
  ultimately show ?thesis by blast
next
  case (UNSET k)
  let ?f' = "frame_unset [f] f k"
  have "exec c [f] = Inr ([], [?f'])"
    using UNSET by (simp add: context_unset_def current_frame_def)
  moreover have "distinct (map fst (data ?f'))" using assms(2) by (simp add: distinct_delete)
  moreover have "frame_disjoint ?f'" using assms(3) by (rule frame_unset_disjoint)
  moreover have "frame_numequalto ?f' x = holders (data ?f') x" if "x \<noteq> ''NULL''" for x
    using that assms(2,4)
    by (auto simp: numequalto_frame_unset numequalto_decrease holders_delete single_frame_get
          split: option.splits)
  ultimately show ?thesis by blast
qed (use assms(1) in simp_all)

lemma single_frame_run:
  assumes "list_all write_command cs" and "distinct (map fst (data f))" and "frame_disjoint f"
    and "\<forall>x. x \<noteq> ''NULL'' \<longrightarrow> frame_numequalto f x = holders (data f) x"
  shows "\<exists>f'. run cs [f] = Inr ([], [f']) \<and> distinct (map fst (data f')) \<and> frame_disjoint f' \<and>
           (\<forall>x. x \<noteq> ''NULL'' \<longrightarrow> frame_numequalto f' x = holders (data f') x)"
  using assms
proof (induction cs arbitrary: f)
  case Nil
  then show ?case by simp
next
  case (Cons c cs)
  from Cons.prems have w: "write_command c" and ws: "list_all write_command cs" by simp_all
  from single_frame_step[OF w Cons.prems(2,3,4)]
  obtain f1 where e: "exec c [f] = Inr ([], [f1])" and i: "distinct (map fst (data f1))"
    "frame_disjoint f1" "\<forall>x. x \<noteq> ''NULL'' \<longrightarrow> frame_numequalto f1 x = holders (data f1) x"
    by blast
  from Cons.IH[OF ws i] obtain f2 where "run cs [f1] = Inr ([], [f2])"
    "distinct (map fst (data f2))" "frame_disjoint f2"
    "\<forall>x. x \<noteq> ''NULL'' \<longrightarrow> frame_numequalto f2 x = holders (data f2) x"
    by blast
  with e show ?case by simp
qed

lemma single_frame_counts_exact_off_NULL:
  assumes "list_all write_command cs"
  shows "\<exists>f. run cs init_context = Inr ([], [f]) \<and>
           (\<forall>v. v \<noteq> ''NULL'' \<longrightarrow> context_numequalto [f] v = brute_force_count [f] v)"
proof -
  have "\<exists>f'. run cs [new_frame] = Inr ([], [f']) \<and> distinct (map fst (data f')) \<and>
          frame_disjoint f' \<and>
          (\<forall>x. x \<noteq> ''NULL'' \<longrightarrow> frame_numequalto f' x = holders (data f') x)"
    by (rule single_frame_run[OF assms])
       (simp_all add: new_frame_def frame_disjoint_def frame_keys_def frame_numequalto_def
          holders_def)
  then obtain f where r: "run cs [new_frame] = Inr ([], [f])"
    and i: "distinct (map fst (data f))" "frame_disjoint f"
       "\<forall>x. x \<noteq> ''NULL'' \<longrightarrow> frame_numequalto f x = holders (data f) x"
    by blast
  from i have "\<forall>v. v \<noteq> ''NULL'' \<longrightarrow> context_numequalto [f] v = brute_force_count [f] v"
    by (simp add: context_numequalto_def holders_brute_force)
  with r show ?thesis by (auto simp: init_context_def)
qed

lemma single_frame_last_write_wins:
  "exec (SET k v) [f] = Inr ([], [frame_set [f] f k v]) \<and>
   exec (UNSET k) [f] = Inr ([], [frame_unset [f] f k]) \<and>
   get_printed [frame_set [f] f k v] k = v \<and>
   get_printed [frame_unset [f] f k] k = ''NULL'' \<and>
   (j \<noteq> k \<longrightarrow> get_printed [frame_set [f] f k v] j = get_printed [f] j \<and>
               get_printed [frame_unset [f] f k] j = get_printed [f] j)"
  by (simp add: context_set_def context_unset_def current_frame_def get_printed_def
        single_frame_get update_conv' delete_conv')

end
